theory Spec2Isabelle
  imports Main "HOL-Library.Sublist" "HOL-Library.Word"
begin

section \<open>Strings\<close>

text \<open>
  A JavaScript string is a sequence of UTF-16 code units. The model keeps the code units
  0 to 255 (the type \<^typ>\<open>char\<close>), and defines the built-in string methods the script
  calls as ECMAScript defines them on that range.
\<close>

definition dq :: char where
  "dq = CHR 0x22"

definition apos :: char where
  "apos = CHR 0x27"

definition nl :: char where
  "nl = CHR 0x0A"

definition isSpace :: "char \<Rightarrow> bool" where
  \<comment> \<open>WhiteSpace and LineTerminator: TAB, LF, VT, FF, CR, SP, NBSP.\<close>
  "isSpace c = (of_char c \<in> {9, 10, 11, 12, 13, 32, 160 :: nat})"

definition trim :: "string \<Rightarrow> string" where
  \<comment> \<open>\<open>String.prototype.trim\<close>\<close>
  "trim s = rev (dropWhile isSpace (rev (dropWhile isSpace s)))"

definition toLowerChar :: "char \<Rightarrow> char" where
  "toLowerChar c =
     (let n = of_char c :: nat
      in if (65 \<le> n \<and> n \<le> 90) \<or> (192 \<le> n \<and> n \<le> 222 \<and> n \<noteq> 215)
         then char_of (n + 32) else c)"

definition toLowerCase :: "string \<Rightarrow> string" where
  \<comment> \<open>\<open>String.prototype.toLowerCase\<close>\<close>
  "toLowerCase s = map toLowerChar s"

definition slice0 :: "string \<Rightarrow> int \<Rightarrow> string" where
  \<comment> \<open>\<open>s.slice(0, e)\<close>: a negative end counts from the end of the string.\<close>
  "slice0 s e = (if e < 0 then take (nat (int (length s) + e)) s else take (nat e) s)"

section \<open>Helpers\<close>

definition isLowerAlnum :: "char \<Rightarrow> bool" where
  \<comment> \<open>the character class \<open>[a-z0-9]\<close>\<close>
  "isLowerAlnum c =
     (let n = of_char c :: nat in (97 \<le> n \<and> n \<le> 122) \<or> (48 \<le> n \<and> n \<le> 57))"

function replaceNonAlnum :: "string \<Rightarrow> string" where
  \<comment> \<open>\<open>.replace(/[^a-z0-9]+/g, "-")\<close>: every maximal run becomes one hyphen.\<close>
  "replaceNonAlnum [] = []"
| "replaceNonAlnum (c # cs) =
     (if isLowerAlnum c then c # replaceNonAlnum cs
      else CHR ''-'' # replaceNonAlnum (dropWhile (\<lambda>d. \<not> isLowerAlnum d) cs))"
  by pat_completeness auto
termination
  by (relation "measure length") (auto simp: length_dropWhile_le less_Suc_eq_le)

definition stripLeadingHyphen :: "string \<Rightarrow> string" where
  \<comment> \<open>the alternative \<open>^-\<close>, which can match at index 0 only\<close>
  "stripLeadingHyphen s = (case s of [] \<Rightarrow> [] | c # cs \<Rightarrow> if c = CHR ''-'' then cs else s)"

definition stripTrailingHyphen :: "string \<Rightarrow> string" where
  \<comment> \<open>the alternative \<open>-$\<close>, which can match at the last index only\<close>
  "stripTrailingHyphen s = (if s \<noteq> [] \<and> last s = CHR ''-'' then butlast s else s)"

definition stripEdgeHyphens :: "string \<Rightarrow> string" where
  \<comment> \<open>\<open>.replace(/(^-|-$)/g, "")\<close>: the matches are found left to right and do not
    overlap, so a hyphen removed at the start is not seen again at the end.\<close>
  "stripEdgeHyphens s = stripTrailingHyphen (stripLeadingHyphen s)"

definition slugify :: "string \<Rightarrow> string" where
  "slugify s = stripEdgeHyphens (replaceNonAlnum (toLowerCase (trim s)))"

definition escChar :: "char \<Rightarrow> string" where
  "escChar c =
     (if c = CHR ''&'' then ''&amp;''
      else if c = CHR ''<'' then ''&lt;''
      else if c = CHR ''>'' then ''&gt;''
      else if c = dq then ''&quot;''
      else if c = apos then ''&#39;''
      else [c])"

definition esc :: "string \<Rightarrow> string" where
  \<comment> \<open>\<open>(s || "").replace(/[&<>"']/g, c => ...)\<close>\<close>
  "esc s = concat (map escChar s)"

section \<open>Fetch (try envs)\<close>

text \<open>
  What one \<open>fetch\<close> call and the following \<open>res.json()\<close> can yield: the request itself is
  rejected, or a response arrives with a status and a body that does not parse, parses to a
  falsy value, or parses to a payload.
\<close>

datatype 'p json = Unparsable | Falsy | Payload 'p

datatype 'p response = Rejected | Response nat "'p json"

datatype error =
    NetworkError
  | JsonError
  | AuthError
  | CouldNotFetch "string list"

definition ENV_FROM_VAR :: "string option \<Rightarrow> string" where
  \<comment> \<open>\<open>process.env.CONTENTFUL_ENV || "master"\<close>\<close>
  "ENV_FROM_VAR v = (case v of None \<Rightarrow> ''master'' | Some e \<Rightarrow> if e = [] then ''master'' else e)"

fun uniq :: "string list \<Rightarrow> string list \<Rightarrow> string list" where
  \<comment> \<open>\<open>Array.from(new Set(xs))\<close>: first occurrences, in insertion order.\<close>
  "uniq seen [] = []"
| "uniq seen (x # xs) = (if x \<in> set seen then uniq seen xs else x # uniq (x # seen) xs)"

definition envCandidates :: "string option \<Rightarrow> string list" where
  "envCandidates v = uniq [] [ENV_FROM_VAR v, ''master'', ''main'']"

definition res_ok :: "nat \<Rightarrow> bool" where
  \<comment> \<open>\<open>res.ok\<close>: a status in the range 200 to 299.\<close>
  "res_ok st = (200 \<le> st \<and> st \<le> 299)"

text \<open>
  The loop over \<open>envCandidates\<close>. The state is the list of environments requested so far
  (what the script logs as "Trying Contentful env") and, at the end, either the error thrown
  or the pair \<open>(data, ENV_USED)\<close>, \<open>None\<close> while \<open>data\<close> is still falsy.
\<close>

fun fetchLoop ::
  "(string \<Rightarrow> 'p response) \<Rightarrow> string list \<Rightarrow> string list
    \<Rightarrow> string list \<times> (error + ('p \<times> string) option)" where
  "fetchLoop fetch [] tried = (tried, Inr None)"
| "fetchLoop fetch (envId # rest) tried =
     (case fetch envId of
        Rejected \<Rightarrow> (tried @ [envId], Inl NetworkError)
      | Response st body \<Rightarrow>
          if res_ok st then
            (case body of
               Unparsable \<Rightarrow> (tried @ [envId], Inl JsonError)
             | Falsy \<Rightarrow> (tried @ [envId], Inr None)
             | Payload d \<Rightarrow> (tried @ [envId], Inr (Some (d, envId))))
          else if st = 401 \<or> st = 403 then (tried @ [envId], Inl AuthError)
          else fetchLoop fetch rest (tried @ [envId]))"

definition fetchEntries ::
  "(string \<Rightarrow> 'p response) \<Rightarrow> string list \<Rightarrow> string list \<times> (error + 'p \<times> string)" where
  \<comment> \<open>the loop followed by \<open>if (!data) throw ...\<close>\<close>
  "fetchEntries fetch cands =
     (case fetchLoop fetch cands [] of
        (tried, Inl e) \<Rightarrow> (tried, Inl e)
      | (tried, Inr None) \<Rightarrow> (tried, Inl (CouldNotFetch cands))
      | (tried, Inr (Some r)) \<Rightarrow> (tried, Inr r))"

section \<open>Asset map\<close>

text \<open>
  An element of \<open>data.includes.Asset\<close>: \<open>sys.id\<close>, \<open>fields.file.url\<close> (\<open>None\<close> when the file or
  its url is missing), \<open>fields.title\<close>, \<open>fields.description\<close> and the pixel dimensions under
  \<open>fields.file.details.image\<close>. A pixel dimension is a non-negative integer below \<open>2^53\<close>: these
  are the integers that a JSON number gives exactly as a JavaScript number.
\<close>

type_synonym pixels = "53 word"

record rawAsset =
  sys_id :: string
  file_url :: "string option"
  fields_title :: "string option"
  fields_description :: "string option"
  image_width :: "pixels option"
  image_height :: "pixels option"

record asset =
  url :: string
  title :: string
  desc :: string
  width :: "pixels option"
  height :: "pixels option"

definition orEmpty :: "string option \<Rightarrow> string" where
  \<comment> \<open>\<open>x || ""\<close>\<close>
  "orEmpty x = (case x of None \<Rightarrow> [] | Some s \<Rightarrow> s)"

definition orNull :: "pixels option \<Rightarrow> pixels option" where
  \<comment> \<open>\<open>x || null\<close>: zero is falsy.\<close>
  "orNull x = (case x of None \<Rightarrow> None | Some n \<Rightarrow> if n = 0 then None else Some n)"

definition assetEntry :: "rawAsset \<Rightarrow> asset" where
  "assetEntry a =
     \<lparr> url = ''https:'' @ orEmpty (file_url a),
       title = orEmpty (fields_title a),
       desc = orEmpty (fields_description a),
       width = orNull (image_width a),
       height = orNull (image_height a) \<rparr>"

definition assetMap :: "rawAsset list \<Rightarrow> (string \<rightharpoonup> asset)" where
  \<comment> \<open>\<open>new Map(pairs)\<close>: a later pair with the same key replaces an earlier one.\<close>
  "assetMap included = foldl (\<lambda>m a. m(sys_id a \<mapsto> assetEntry a)) Map.empty included"

section \<open>Rich Text renderer\<close>

text \<open>
  A node of the rich text tree with the fields the script reads: \<open>nodeType\<close>, \<open>value\<close> (empty
  when absent, as \<open>node.value || ""\<close> reads it), the \<open>type\<close> of each element of \<open>marks\<close>,
  \<open>data.uri\<close>, \<open>data.target.sys.id\<close> and \<open>content\<close> (empty when absent, as \<open>nodes || []\<close>
  reads it).
\<close>

datatype node =
  Node (nodeType: string) (nvalue: string) (marks: "string list")
    (uri: "string option") (target: "string option") (content: "node list")

fun decimal :: "nat \<Rightarrow> string" where
  \<comment> \<open>the decimal digits of a natural number\<close>
  "decimal n =
     (if n < 10 then [char_of (48 + n)] else decimal (n div 10) @ [char_of (48 + n mod 10)])"

definition numToString :: "pixels \<Rightarrow> string" where
  \<comment> \<open>a pixel dimension inside a template literal: \<open>Number::toString\<close> prints an integer
    below \<open>10^21\<close>, so every integer below \<open>2^53\<close>, as its decimal digits.\<close>
  "numToString w = decimal (unat w)"

definition wrapMark :: "string \<Rightarrow> string \<Rightarrow> string" where
  "wrapMark out m =
     (if m = ''bold'' then ''<strong>'' @ out @ ''</strong>''
      else if m = ''italic'' then ''<em>'' @ out @ ''</em>''
      else if m = ''underline'' then ''<u>'' @ out @ ''</u>''
      else if m = ''code'' then ''<code>'' @ out @ ''</code>''
      else out)"

fun applyMarks :: "string \<Rightarrow> string list \<Rightarrow> string" where
  \<comment> \<open>\<open>for (const m of marks) ...\<close>\<close>
  "applyMarks out [] = out"
| "applyMarks out (m # ms) = applyMarks (wrapMark out m) ms"

definition headingLevel :: "string \<Rightarrow> string" where
  \<comment> \<open>\<open>t.split("-")[1]\<close> for a \<open>t\<close> that starts with \<open>heading-\<close>\<close>
  "headingLevel t = takeWhile (\<lambda>c. c \<noteq> CHR ''-'') (drop 8 t)"

definition lookupAsset :: "(string \<rightharpoonup> asset) \<Rightarrow> string option \<Rightarrow> asset option" where
  \<comment> \<open>\<open>id ? assetMap.get(id) : null\<close>\<close>
  "lookupAsset assets tg =
     (case tg of None \<Rightarrow> None | Some i \<Rightarrow> if i = [] then None else assets i)"

definition figure :: "asset \<Rightarrow> string" where
  "figure a =
     (let alt = esc (if title a \<noteq> [] then title a else desc a);
          wh = (case (width a, height a) of
                  (Some w, Some h) \<Rightarrow>
                    if w \<noteq> 0 \<and> h \<noteq> 0
                    then '' width='' @ [dq] @ numToString w @ [dq]
                       @ '' height='' @ [dq] @ numToString h @ [dq]
                    else []
                | _ \<Rightarrow> [])
      in ''<figure><img src='' @ [dq] @ url a @ [dq] @ '' alt='' @ [dq] @ alt @ [dq]
         @ '' class='' @ [dq] @ ''news-image'' @ [dq] @ '' loading='' @ [dq] @ ''lazy'' @ [dq]
         @ '' decoding='' @ [dq] @ ''async'' @ [dq] @ wh @ ''></figure>'')"

fun renderNode :: "(string \<rightharpoonup> asset) \<Rightarrow> node \<Rightarrow> string"
  and renderNodes :: "(string \<rightharpoonup> asset) \<Rightarrow> node list \<Rightarrow> string" where
  "renderNodes assets [] = []"
| "renderNodes assets (n # ns) = renderNode assets n @ renderNodes assets ns"
| "renderNode assets (Node t v ms u tg cs) =
     (if t = ''text'' then applyMarks (esc v) ms
      else if t = ''paragraph'' then ''<p>'' @ renderNodes assets cs @ ''</p>''
      else if prefix ''heading-'' t then
        ''<h'' @ headingLevel t @ ''>'' @ renderNodes assets cs @ ''</h'' @ headingLevel t @ ''>''
      else if t = ''unordered-list'' then ''<ul>'' @ renderNodes assets cs @ ''</ul>''
      else if t = ''ordered-list'' then ''<ol>'' @ renderNodes assets cs @ ''</ol>''
      else if t = ''list-item'' then ''<li>'' @ renderNodes assets cs @ ''</li>''
      else if t = ''blockquote'' then ''<blockquote>'' @ renderNodes assets cs @ ''</blockquote>''
      else if t = ''hr'' then ''<hr/>''
      else if t = ''hyperlink'' then
        ''<a href='' @ [dq] @ (if orEmpty u \<noteq> [] then esc (orEmpty u) else ''#'') @ [dq]
          @ '' target='' @ [dq] @ ''_blank'' @ [dq] @ '' rel='' @ [dq] @ ''noopener'' @ [dq] @ ''>''
          @ renderNodes assets cs @ ''</a>''
      else if t = ''embedded-asset-block'' \<or> t = ''embedded-asset-inline'' then
        (case lookupAsset assets tg of
           None \<Rightarrow> []
         | Some a \<Rightarrow> if url a = [] then [] else figure a)
      else renderNodes assets cs)"

definition renderRich :: "(string \<rightharpoonup> asset) \<Rightarrow> node option \<Rightarrow> string" where
  \<comment> \<open>\<open>if (!rt?.content) return ""\<close>, else the nodes of \<open>rt.content\<close>\<close>
  "renderRich assets rt = (case rt of None \<Rightarrow> [] | Some d \<Rightarrow> renderNodes assets (content d))"

section \<open>Split into lead and rest\<close>

definition document :: "node list \<Rightarrow> node" where
  \<comment> \<open>\<open>{ nodeType: "document", content: cs }\<close>\<close>
  "document cs = Node ''document'' [] [] None None cs"

fun splitLoop :: "nat \<Rightarrow> node list \<Rightarrow> node list \<times> node list \<times> nat \<Rightarrow> node list \<times> node list \<times> nat" where
  \<comment> \<open>the \<open>for\<close> loop, on the state \<open>(outLead, outRest, taken)\<close>\<close>
  "splitLoop tk [] st = st"
| "splitLoop tk (n # ns) (outLead, outRest, taken) =
     (if taken < tk \<and> nodeType n = ''paragraph''
      then splitLoop tk ns (outLead @ [n], outRest, taken + 1)
      else splitLoop tk ns (outLead, outRest @ [n], taken))"

record leadRest =
  lead :: node
  rest :: node

definition splitLead :: "node option \<Rightarrow> nat \<Rightarrow> leadRest" where
  "splitLead rt tk =
     (case splitLoop tk (case rt of None \<Rightarrow> [] | Some d \<Rightarrow> content d) ([], [], 0) of
        (outLead, outRest, taken) \<Rightarrow> \<lparr> lead = document outLead, rest = document outRest \<rparr>)"

section \<open>Plain text snippet\<close>

fun walk :: "int \<Rightarrow> node \<Rightarrow> string \<Rightarrow> string"
  and walkArray :: "int \<Rightarrow> node list \<Rightarrow> string \<Rightarrow> string"
  and forEach :: "int \<Rightarrow> node list \<Rightarrow> string \<Rightarrow> string" where
  \<comment> \<open>the closure \<open>walk\<close>, on the buffer \<open>buf\<close>: a node, an array of nodes, and the
    \<open>forEach\<close> over the array\<close>
  "walk mx (Node t v ms u tg cs) buf =
     (if mx \<le> int (length buf) then buf
      else walkArray mx cs (if t = ''text'' then buf @ v else buf))"
| "walkArray mx ns buf = (if mx \<le> int (length buf) then buf else forEach mx ns buf)"
| "forEach mx [] buf = buf"
| "forEach mx (n # ns) buf = forEach mx ns (walk mx n buf)"

definition richToPlain :: "node option \<Rightarrow> int \<Rightarrow> string" where
  "richToPlain rt mx =
     esc (slice0 (trim (case rt of None \<Rightarrow> [] | Some d \<Rightarrow> walk mx d [])) mx)"

section \<open>Injecting the cards into the listing template\<close>

definition START :: string where
  "START = ''<!-- START:NEWS-LIST -->''"

definition END :: string where
  "END = ''<!-- END:NEWS-LIST -->''"

fun lazyThenEnd :: "string \<Rightarrow> (string \<times> string) option" where
  \<comment> \<open>\<open>([\s\S]*?)(<!-- END:NEWS-LIST -->)\<close> at the start of \<open>s\<close>: the shortest group 2
    first; the result is group 2 and what follows the match.\<close>
  "lazyThenEnd s =
     (if prefix END s then Some ([], drop (length END) s)
      else (case s of
              [] \<Rightarrow> None
            | c # cs \<Rightarrow> (case lazyThenEnd cs of None \<Rightarrow> None | Some (g, r) \<Rightarrow> Some (c # g, r))))"

definition matchHere :: "string \<Rightarrow> (string \<times> string) option" where
  \<comment> \<open>the whole pattern at the start of \<open>s\<close>\<close>
  "matchHere s = (if prefix START s then lazyThenEnd (drop (length START) s) else None)"

fun regexExec :: "string \<Rightarrow> string \<Rightarrow> (string \<times> string \<times> string) option" where
  \<comment> \<open>the leftmost match: what precedes it, group 2, what follows it\<close>
  "regexExec pre s =
     (case matchHere s of
        Some (g, r) \<Rightarrow> Some (pre, g, r)
      | None \<Rightarrow> (case s of [] \<Rightarrow> None | c # cs \<Rightarrow> regexExec (pre @ [c]) cs))"

definition isDigit :: "char \<Rightarrow> bool" where
  "isDigit c = (48 \<le> (of_char c :: nat) \<and> (of_char c :: nat) \<le> 57)"

definition digitVal :: "char \<Rightarrow> nat" where
  "digitVal c = of_char c - 48"

definition capture :: "string list \<Rightarrow> nat \<Rightarrow> string option" where
  \<comment> \<open>the capture of index \<open>i\<close>, counted from 1, when there is one\<close>
  "capture caps i = (if 1 \<le> i \<and> i \<le> length caps then Some (caps ! (i - 1)) else None)"

fun getSubstitution :: "string \<Rightarrow> string \<Rightarrow> string \<Rightarrow> string list \<Rightarrow> string \<Rightarrow> string" where
  \<comment> \<open>ECMAScript GetSubstitution: the replacement patterns of a replacement string, given the
    matched text, the text that precedes it, the text that follows it and the captures.\<close>
  "getSubstitution matched pre post caps [] = []"
| "getSubstitution matched pre post caps [c] = [c]"
| "getSubstitution matched pre post caps (c # d # r) =
     (if c \<noteq> CHR ''$'' then c # getSubstitution matched pre post caps (d # r)
      else if d = CHR ''$'' then CHR ''$'' # getSubstitution matched pre post caps r
      else if d = CHR 0x60 then pre @ getSubstitution matched pre post caps r
      else if d = CHR ''&'' then matched @ getSubstitution matched pre post caps r
      else if d = apos then post @ getSubstitution matched pre post caps r
      else if isDigit d then
        (case r of
           [] \<Rightarrow>
             (case capture caps (digitVal d) of
                Some g \<Rightarrow> g
              | None \<Rightarrow> [c, d])
         | e # r' \<Rightarrow>
             if isDigit e \<and> 10 * digitVal d + digitVal e \<le> length caps then
               (case capture caps (10 * digitVal d + digitVal e) of
                  Some g \<Rightarrow> g @ getSubstitution matched pre post caps r'
                | None \<Rightarrow> c # d # e # getSubstitution matched pre post caps r')
             else
               (case capture caps (digitVal d) of
                  Some g \<Rightarrow> g @ getSubstitution matched pre post caps (e # r')
                | None \<Rightarrow> c # d # getSubstitution matched pre post caps (e # r')))
      else c # getSubstitution matched pre post caps (d # r))"

definition newsPage :: "string \<Rightarrow> string \<Rightarrow> string" where
  \<comment> \<open>\<open>let newsPage = newsTpl.replace(/(START)([\s\S]*?)(END)/, `$1\n${cards}\n$3`)\<close>:
    the first match is replaced; \<open>replace\<close> returns a string with no match as it is.\<close>
  "newsPage newsTpl cards =
     (case regexExec [] newsTpl of
        None \<Rightarrow> newsTpl
      | Some (pre, g, post) \<Rightarrow>
          pre
          @ getSubstitution (START @ g @ END) pre post [START, g, END]
              (''$1'' @ [nl] @ cards @ [nl] @ ''$3'')
          @ post)"

section \<open>Shapes used in the statements\<close>

fun hyphenated :: "string \<Rightarrow> bool" where
  \<comment> \<open>only \<open>[a-z0-9]\<close> and hyphens, and after a hyphen comes a character of \<open>[a-z0-9]\<close>
    or the end\<close>
  "hyphenated [] = True"
| "hyphenated (c # cs) =
     ((isLowerAlnum c \<or> (c = CHR ''-'' \<and> (case cs of [] \<Rightarrow> True | d # _ \<Rightarrow> isLowerAlnum d)))
      \<and> hyphenated cs)"

definition slugForm :: "string \<Rightarrow> bool" where
  "slugForm s = (hyphenated s \<and> (s = [] \<or> (hd s \<noteq> CHR ''-'' \<and> last s \<noteq> CHR ''-'')))"

text \<open>The fetch loop: what a successful response leaves in \<open>(data, ENV_USED)\<close>.\<close>

definition outcome :: "'p json \<Rightarrow> string \<Rightarrow> error + ('p \<times> string) option" where
  "outcome body envId =
     (case body of
        Unparsable \<Rightarrow> Inl JsonError
      | Falsy \<Rightarrow> Inr None
      | Payload d \<Rightarrow> Inr (Some (d, envId)))"

text \<open>
  Text nodes: the tag of a mark, and the opening and closing tags a mark contributes (nothing
  for a mark of another type).
\<close>

definition markTag :: "string \<Rightarrow> string option" where
  "markTag m =
     (if m = ''bold'' then Some ''strong''
      else if m = ''italic'' then Some ''em''
      else if m = ''underline'' then Some ''u''
      else if m = ''code'' then Some ''code''
      else None)"

definition openTag :: "string \<Rightarrow> string" where
  "openTag m = (case markTag m of None \<Rightarrow> [] | Some t \<Rightarrow> ''<'' @ t @ ''>'')"

definition closeTag :: "string \<Rightarrow> string" where
  "closeTag m = (case markTag m of None \<Rightarrow> [] | Some t \<Rightarrow> ''</'' @ t @ ''>'')"

text \<open>
  Lead and rest: the top-level position \<open>i\<close> goes to the lead when its node is a paragraph
  and fewer than \<open>n\<close> paragraphs precede it; \<open>interleave\<close> puts two sequences back
  together, taking the next element of the first where the flag is true and of the second
  where it is false.
\<close>

definition isParagraph :: "node \<Rightarrow> bool" where
  "isParagraph n = (nodeType n = ''paragraph'')"

definition isLead :: "nat \<Rightarrow> node list \<Rightarrow> nat \<Rightarrow> bool" where
  "isLead n cs i =
     (i < length cs \<and> isParagraph (cs ! i) \<and> length (filter isParagraph (take i cs)) < n)"

fun interleave :: "bool list \<Rightarrow> 'a list \<Rightarrow> 'a list \<Rightarrow> 'a list" where
  "interleave [] ls rs = []"
| "interleave (True # fs) ls rs = (case ls of [] \<Rightarrow> [] | l # ls' \<Rightarrow> l # interleave fs ls' rs)"
| "interleave (False # fs) ls rs = (case rs of [] \<Rightarrow> [] | r # rs' \<Rightarrow> r # interleave fs ls rs')"

definition leadFrom :: "nat \<Rightarrow> nat \<Rightarrow> node list \<Rightarrow> nat \<Rightarrow> bool" where
  \<comment> \<open>\<open>isLead\<close> for the remaining nodes, once \<open>taken\<close> paragraphs went to the lead\<close>
  "leadFrom tk taken cs i =
     (i < length cs \<and> isParagraph (cs ! i) \<and> taken + length (filter isParagraph (take i cs)) < tk)"

text \<open>
  Plain text: the text-node values of a tree, depth first, and the text accumulated from a
  list of values, which stops growing once its length has reached \<open>mx\<close>.
\<close>

fun texts :: "node \<Rightarrow> string list" and textsOf :: "node list \<Rightarrow> string list" where
  "texts (Node t v ms u tg cs) = (if t = ''text'' then [v] else []) @ textsOf cs"
| "textsOf [] = []"
| "textsOf (n # ns) = texts n @ textsOf ns"

fun accumulate :: "int \<Rightarrow> string \<Rightarrow> string list \<Rightarrow> string" where
  "accumulate mx buf [] = buf"
| "accumulate mx buf (v # vs) =
     (if mx \<le> int (length buf) then buf else accumulate mx (buf @ v) vs)"

section \<open>Example inputs\<close>

definition helloDoc :: node where
  "helloDoc = document [Node ''paragraph'' [] [] None None
     [Node ''text'' ''Hello '' [] None None [], Node ''text'' ''<world>'' [] None None []]]"

definition paddedDoc :: node where
  "paddedDoc = document [Node ''text'' '' ab'' [] None None []]"

definition splitDoc :: node where
  "splitDoc = document
     [Node ''hr'' [] [] None None [],
      Node ''paragraph'' ''1'' [] None None [],
      Node ''paragraph'' ''2'' [] None None []]"

definition logoAsset :: rawAsset where
  "logoAsset =
     \<lparr> sys_id = ''logo'', file_url = Some ''//images.example/logo.png'',
       fields_title = Some ''Logo'', fields_description = None,
       image_width = Some 120, image_height = Some 40 \<rparr>"

definition stagingMissing :: "string \<Rightarrow> nat response" where
  \<comment> \<open>"staging" answers 404, "master" answers 200\<close>
  "stagingMissing envId =
     (if envId = ''staging'' then Response 404 Unparsable
      else if envId = ''master'' then Response 200 (Payload 1)
      else Response 200 (Payload 2))"

definition stagingBroken :: "string \<Rightarrow> nat response" where
  \<comment> \<open>"staging" answers 500, "master" answers 200\<close>
  "stagingBroken envId =
     (if envId = ''staging'' then Response 500 Unparsable
      else if envId = ''master'' then Response 200 (Payload 1)
      else Response 200 (Payload 2))"

definition masterForbidden :: "string \<Rightarrow> nat response" where
  \<comment> \<open>"staging" answers 404, "master" answers 403\<close>
  "masterForbidden envId =
     (if envId = ''staging'' then Response 404 Unparsable
      else if envId = ''master'' then Response 403 Unparsable
      else Response 200 (Payload 2))"

declare lazyThenEnd.simps [simp del]

declare regexExec.simps [simp del]

section \<open>Slugs\<close>

lemma hyphen_not_alnum: "\<not> isLowerAlnum (CHR ''-'')"
  by (simp add: isLowerAlnum_def)

lemma hyphen_lower: "toLowerChar (CHR ''-'') = CHR ''-''"
  by (simp add: toLowerChar_def)

lemma alnum_not_space: "isLowerAlnum c \<Longrightarrow> \<not> isSpace c"
  by (simp add: isLowerAlnum_def isSpace_def Let_def) presburger

lemma alnum_lower: "isLowerAlnum c \<Longrightarrow> toLowerChar c = c"
proof -
  assume "isLowerAlnum c"
  then have "\<not> ((65 \<le> (of_char c :: nat) \<and> (of_char c :: nat) \<le> 90)
      \<or> (192 \<le> (of_char c :: nat) \<and> (of_char c :: nat) \<le> 222 \<and> (of_char c :: nat) \<noteq> 215))"
    unfolding isLowerAlnum_def Let_def by linarith
  then show ?thesis
    unfolding toLowerChar_def Let_def by (simp only: if_False)
qed

lemma replace_head:
  "(case replaceNonAlnum (dropWhile (\<lambda>d. \<not> isLowerAlnum d) cs) of [] \<Rightarrow> True | d # _ \<Rightarrow> isLowerAlnum d)"
proof (cases "dropWhile (\<lambda>d. \<not> isLowerAlnum d) cs")
  case Nil
  show ?thesis unfolding Nil by simp
next
  case (Cons d ds)
  then have "isLowerAlnum d"
    using hd_dropWhile [of "\<lambda>d. \<not> isLowerAlnum d" cs] by auto
  then show ?thesis unfolding Cons by simp
qed

lemma hyphenated_replace: "hyphenated (replaceNonAlnum s)"
  by (induction s rule: replaceNonAlnum.induct) (simp_all add: replace_head)

lemma replace_fixed: "hyphenated s \<Longrightarrow> replaceNonAlnum s = s"
proof (induction s rule: replaceNonAlnum.induct)
  case 1
  then show ?case by simp
next
  case (2 c cs)
  show ?case
  proof (cases "isLowerAlnum c")
    case True
    with 2 show ?thesis by simp
  next
    case False
    with "2.prems" have dw: "dropWhile (\<lambda>d. \<not> isLowerAlnum d) cs = cs"
      by (cases cs) simp_all
    with False 2 show ?thesis by simp
  qed
qed

lemma hyphenated_chars: "hyphenated s \<Longrightarrow> c \<in> set s \<Longrightarrow> isLowerAlnum c \<or> c = CHR ''-''"
  by (induction s) auto

lemma hyphenated_butlast: "hyphenated s \<Longrightarrow> hyphenated (butlast s)"
proof (induction s)
  case Nil
  then show ?case by simp
next
  case (Cons c cs)
  then show ?case by (cases cs) (auto split: list.splits)
qed

lemma hyphenated_no_double: "hyphenated (a @ CHR ''-'' # CHR ''-'' # b) \<Longrightarrow> False"
  by (induction a) (simp_all add: hyphen_not_alnum)

lemma hyphenated_last:
  "hyphenated s \<Longrightarrow> s \<noteq> [] \<Longrightarrow> last s = CHR ''-'' \<Longrightarrow> butlast s \<noteq> [] \<Longrightarrow> last (butlast s) \<noteq> CHR ''-''"
proof (induction s)
  case Nil
  then show ?case by simp
next
  case (Cons c cs)
  show ?case
  proof (cases cs)
    case Nil
    with Cons.prems show ?thesis by simp
  next
    case outer: (Cons d ds)
    show ?thesis
    proof (cases ds)
      case Nil
      with outer Cons.prems show ?thesis by (auto simp: hyphen_not_alnum)
    next
      case (Cons e es)
      with outer Cons.prems Cons.IH show ?thesis by auto
    qed
  qed
qed

lemma hyphenated_leading: "hyphenated s \<Longrightarrow> hyphenated (stripLeadingHyphen s)"
  by (cases s) (auto simp: stripLeadingHyphen_def)

lemma leading_hd: "hyphenated s \<Longrightarrow> stripLeadingHyphen s = [] \<or> hd (stripLeadingHyphen s) \<noteq> CHR ''-''"
proof (cases s)
  case Nil
  then show ?thesis by (simp add: stripLeadingHyphen_def)
next
  case (Cons c cs)
  assume h: "hyphenated s"
  show ?thesis
  proof (cases "c = CHR ''-''")
    case False
    with Cons show ?thesis by (simp add: stripLeadingHyphen_def)
  next
    case True
    with Cons h have "cs = [] \<or> isLowerAlnum (hd cs)"
      by (cases cs) (simp_all add: hyphen_not_alnum)
    then have "cs = [] \<or> hd cs \<noteq> CHR ''-''"
      using hyphen_not_alnum by metis
    with True Cons show ?thesis by (simp add: stripLeadingHyphen_def)
  qed
qed

lemma hyphenated_trailing: "hyphenated s \<Longrightarrow> hyphenated (stripTrailingHyphen s)"
  by (simp add: stripTrailingHyphen_def hyphenated_butlast)

lemma trailing_last:
  "hyphenated s \<Longrightarrow> stripTrailingHyphen s = [] \<or> last (stripTrailingHyphen s) \<noteq> CHR ''-''"
  using hyphenated_last [of s] by (simp add: stripTrailingHyphen_def) blast

lemma trailing_hd:
  "s = [] \<or> hd s \<noteq> CHR ''-'' \<Longrightarrow> stripTrailingHyphen s = [] \<or> hd (stripTrailingHyphen s) \<noteq> CHR ''-''"
  by (cases s) (simp_all add: stripTrailingHyphen_def)

lemma slugForm_strip: "hyphenated s \<Longrightarrow> slugForm (stripEdgeHyphens s)"
  unfolding slugForm_def stripEdgeHyphens_def
  using hyphenated_trailing [OF hyphenated_leading, of s]
    trailing_last [OF hyphenated_leading, of s] trailing_hd [OF leading_hd, of s]
  by blast

lemma slugForm_slugify: "slugForm (slugify x)"
  by (simp add: slugify_def slugForm_strip hyphenated_replace)

lemma slugForm_ends: "slugForm s \<Longrightarrow> s \<noteq> [] \<Longrightarrow> isLowerAlnum (hd s) \<and> isLowerAlnum (last s)"
  using hyphenated_chars [of s "hd s"] hyphenated_chars [of s "last s"]
  by (simp add: slugForm_def)

lemma slugForm_trim: "slugForm s \<Longrightarrow> trim s = s"
proof (cases "s = []")
  case True
  then show ?thesis by (simp add: trim_def)
next
  case False
  assume sf: "slugForm s"
  from slugForm_ends [OF sf False]
  have a: "\<not> isSpace (hd s)" and b: "\<not> isSpace (last s)"
    by (simp_all add: alnum_not_space)
  from a have "dropWhile isSpace s = s"
    by (simp add: dropWhile_eq_self_iff)
  moreover from b have "dropWhile isSpace (rev s) = rev s"
    by (simp add: dropWhile_eq_self_iff hd_rev)
  ultimately show ?thesis by (simp add: trim_def)
qed

lemma hyphenated_lower: "hyphenated s \<Longrightarrow> toLowerCase s = s"
  unfolding toLowerCase_def
proof (rule map_idI)
  fix c assume "hyphenated s" "c \<in> set s"
  then have "isLowerAlnum c \<or> c = CHR ''-''" by (rule hyphenated_chars)
  then show "toLowerChar c = c" using alnum_lower hyphen_lower by metis
qed

lemma slugForm_stripEdge: "slugForm s \<Longrightarrow> stripEdgeHyphens s = s"
proof (cases s)
  case Nil
  then show ?thesis by (simp add: stripEdgeHyphens_def stripLeadingHyphen_def stripTrailingHyphen_def)
next
  case (Cons c cs)
  assume "slugForm s"
  with Cons have "c \<noteq> CHR ''-''" "last s \<noteq> CHR ''-''"
    by (simp_all add: slugForm_def)
  with Cons show ?thesis
    by (simp add: stripEdgeHyphens_def stripLeadingHyphen_def stripTrailingHyphen_def)
qed

lemma slugify_fixed: "slugForm s \<Longrightarrow> slugify s = s"
  by (simp add: slugify_def slugForm_trim hyphenated_lower replace_fixed slugForm_stripEdge slugForm_def)

text \<open>
  Claim C5. Slug derivation is idempotent: for every string \<open>x\<close>, applying \<open>slugify\<close> to
  \<open>slugify x\<close> gives \<open>slugify x\<close> again.
\<close>

theorem slugify_idempotent: "slugify (slugify x) = slugify x"
  by (rule slugify_fixed) (rule slugForm_slugify)

lemma alnum_enum: "isLowerAlnum c \<longleftrightarrow> c \<in> set ''abcdefghijklmnopqrstuvwxyz0123456789''"
proof
  assume "c \<in> set ''abcdefghijklmnopqrstuvwxyz0123456789''"
  then show "isLowerAlnum c"
    by (auto simp: isLowerAlnum_def)
next
  assume a: "isLowerAlnum c"
  define n where "n = (of_char c :: nat)"
  have c: "c = char_of n" by (simp add: n_def)
  have tab: "map char_of ([97..<123] @ [48..<58] :: nat list) = ''abcdefghijklmnopqrstuvwxyz0123456789''"
    by code_simp
  from a have "(97 \<le> n \<and> n < 123) \<or> (48 \<le> n \<and> n < 58)"
    unfolding isLowerAlnum_def Let_def n_def by linarith
  then have "n \<in> set ([97..<123] @ [48..<58])"
    by (simp only: set_append set_upt Un_iff atLeastLessThan_iff)
  then have "char_of n \<in> set (map char_of ([97..<123] @ [48..<58] :: nat list))"
    unfolding set_map by (rule imageI)
  then show "c \<in> set ''abcdefghijklmnopqrstuvwxyz0123456789''"
    unfolding tab c .
qed

lemma slugForm_no_double: "slugForm s \<Longrightarrow> \<not> (\<exists>a b. s = a @ ''--'' @ b)"
  using hyphenated_no_double by (auto simp: slugForm_def)

lemma slugForm_no_edge: "slugForm s \<Longrightarrow> \<not> prefix ''-'' s \<and> \<not> suffix ''-'' s"
  by (auto simp: slugForm_def prefix_def suffix_def)

lemma slugForm_alphabet: "slugForm s \<Longrightarrow> set s \<subseteq> set ''abcdefghijklmnopqrstuvwxyz0123456789-''"
proof
  fix c assume "slugForm s" "c \<in> set s"
  then have "isLowerAlnum c \<or> c = CHR ''-''"
    using hyphenated_chars [of s c] by (simp add: slugForm_def)
  then show "c \<in> set ''abcdefghijklmnopqrstuvwxyz0123456789-''"
    unfolding alnum_enum by auto
qed

text \<open>
  Claim C10. For every string \<open>x\<close>, \<open>slugify x\<close> consists only of lowercase ASCII letters,
  digits and hyphens, contains no two consecutive hyphens, and neither begins nor ends with a
  hyphen.
\<close>

theorem slugify_shape:
  "set (slugify x) \<subseteq> set ''abcdefghijklmnopqrstuvwxyz0123456789-''
   \<and> \<not> (\<exists>a b. slugify x = a @ ''--'' @ b)
   \<and> \<not> prefix ''-'' (slugify x) \<and> \<not> suffix ''-'' (slugify x)"
  using slugForm_alphabet [OF slugForm_slugify] slugForm_no_double [OF slugForm_slugify]
    slugForm_no_edge [OF slugForm_slugify]
  by blast

theorem slugify_shape_witness:
  "slugify ''  Hello, World! '' = ''hello-world''
   \<and> set (slugify ''  Hello, World! '') \<subseteq> set ''abcdefghijklmnopqrstuvwxyz0123456789-''
   \<and> \<not> (\<exists>a b. slugify ''  Hello, World! '' = a @ ''--'' @ b)
   \<and> \<not> prefix ''-'' (slugify ''  Hello, World! '') \<and> \<not> suffix ''-'' (slugify ''  Hello, World! '')"
proof -
  have "slugify ''  Hello, World! '' = ''hello-world''" by code_simp
  then show ?thesis using slugify_shape [of "''  Hello, World! ''"] by blast
qed

theorem slugify_idempotent_witness:
  "slugify ''--A  b--'' = ''a-b'' \<and> slugify (slugify ''--A  b--'') = slugify ''--A  b--''"
proof -
  have "slugify ''--A  b--'' = ''a-b''" by code_simp
  then show ?thesis using slugify_idempotent [of "''--A  b--''"] by simp
qed

section \<open>Fetching: the first decisive response ends the loop\<close>

lemma fetchLoop_tried:
  "fetchLoop fetch cs acc = (tried, r) \<Longrightarrow> \<exists>k \<le> length cs. tried = acc @ take k cs"
proof (induction cs arbitrary: acc)
  case Nil
  then show ?case by simp
next
  case (Cons c cs)
  show ?case
  proof (cases "fetchLoop fetch (c # cs) acc = fetchLoop fetch cs (acc @ [c])")
    case True
    with Cons.prems Cons.IH [of "acc @ [c]"] obtain k where
      "k \<le> length cs" "tried = (acc @ [c]) @ take k cs" by auto
    then have "Suc k \<le> length (c # cs) \<and> tried = acc @ take (Suc k) (c # cs)" by simp
    then show ?thesis by blast
  next
    case False
    then have "fst (fetchLoop fetch (c # cs) acc) = acc @ [c]"
      by (auto split: response.splits json.splits if_splits)
    with Cons.prems have "Suc 0 \<le> length (c # cs) \<and> tried = acc @ take (Suc 0) (c # cs)" by simp
    then show ?thesis by blast
  qed
qed

lemma fetchLoop_auth:
  "fetchLoop fetch cs acc = (tried, r) \<Longrightarrow> length acc \<le> i \<Longrightarrow> i < length tried \<Longrightarrow>
   fetch (tried ! i) = Response st b \<Longrightarrow> st = 401 \<or> st = 403 \<Longrightarrow>
   r = Inl AuthError \<and> tried = acc @ take (Suc i - length acc) cs"
proof (induction cs arbitrary: acc)
  case Nil
  then show ?case by simp
next
  case (Cons c cs)
  from fetchLoop_tried [OF Cons.prems(1)] obtain k where
    k: "k \<le> length (c # cs)" "tried = acc @ take k (c # cs)" by blast
  show ?case
  proof (cases "i = length acc")
    case True
    with k Cons.prems(3) have "tried ! i = c"
      by (cases k) (simp_all add: nth_append)
    with Cons.prems(4) have fc: "fetch c = Response st b" by simp
    from Cons.prems(5) have "\<not> res_ok st" by (auto simp: res_ok_def)
    with fc Cons.prems(1,5) True show ?thesis by auto
  next
    case False
    with Cons.prems(2) have i: "length (acc @ [c]) \<le> i" by simp
    have "fetchLoop fetch (c # cs) acc = fetchLoop fetch cs (acc @ [c])"
    proof (rule ccontr)
      assume "fetchLoop fetch (c # cs) acc \<noteq> fetchLoop fetch cs (acc @ [c])"
      then have "fst (fetchLoop fetch (c # cs) acc) = acc @ [c]"
        by (auto split: response.splits json.splits if_splits)
      with Cons.prems(1,3) i show False by simp
    qed
    with Cons.prems(1) have "fetchLoop fetch cs (acc @ [c]) = (tried, r)" by simp
    from Cons.IH [OF this i Cons.prems(3,4,5)]
    have "r = Inl AuthError" and "tried = (acc @ [c]) @ take (Suc i - length (acc @ [c])) cs"
      by simp_all
    moreover from i have "Suc i - length acc = Suc (Suc i - length (acc @ [c]))" by simp
    ultimately show ?thesis by simp
  qed
qed

lemma fetchLoop_ok:
  "fetchLoop fetch cs acc = (tried, r) \<Longrightarrow> length acc \<le> i \<Longrightarrow> i < length tried \<Longrightarrow>
   fetch (tried ! i) = Response st b \<Longrightarrow> res_ok st \<Longrightarrow>
   r = outcome b (tried ! i) \<and> tried = acc @ take (Suc i - length acc) cs"
proof (induction cs arbitrary: acc)
  case Nil
  then show ?case by simp
next
  case (Cons c cs)
  from fetchLoop_tried [OF Cons.prems(1)] obtain k where
    k: "k \<le> length (c # cs)" "tried = acc @ take k (c # cs)" by blast
  show ?case
  proof (cases "i = length acc")
    case True
    with k Cons.prems(3) have ti: "tried ! i = c"
      by (cases k) (simp_all add: nth_append)
    with Cons.prems(4) have fc: "fetch c = Response st b" by simp
    with Cons.prems(1,5) True ti show ?thesis
      by (auto simp: outcome_def split: json.splits)
  next
    case False
    with Cons.prems(2) have i: "length (acc @ [c]) \<le> i" by simp
    have "fetchLoop fetch (c # cs) acc = fetchLoop fetch cs (acc @ [c])"
    proof (rule ccontr)
      assume "fetchLoop fetch (c # cs) acc \<noteq> fetchLoop fetch cs (acc @ [c])"
      then have "fst (fetchLoop fetch (c # cs) acc) = acc @ [c]"
        by (auto split: response.splits json.splits if_splits)
      with Cons.prems(1,3) i show False by simp
    qed
    with Cons.prems(1) have "fetchLoop fetch cs (acc @ [c]) = (tried, r)" by simp
    from Cons.IH [OF this i Cons.prems(3,4,5)]
    have "r = outcome b (tried ! i)" and "tried = (acc @ [c]) @ take (Suc i - length (acc @ [c])) cs"
      by simp_all
    moreover from i have "Suc i - length acc = Suc (Suc i - length (acc @ [c]))" by simp
    ultimately show ?thesis by simp
  qed
qed

text \<open>
  Claim C3. For every ordered list of environment candidates: if the request to some
  candidate returns HTTP 401 or 403, the fetch ends with the authorization error, and that
  request is the last one issued: the environments requested are exactly the candidates up to
  and including it, so no later candidate is tried.
\<close>

theorem auth_failure_aborts:
  assumes "fetchEntries fetch cands = (tried, res)"
    and "i < length tried"
    and "fetch (tried ! i) = Response st body"
    and "st = 401 \<or> st = 403"
  shows "res = Inl AuthError \<and> tried = take (Suc i) cands \<and> length tried = Suc i"
proof -
  obtain r where fl: "fetchLoop fetch cands [] = (tried, r)"
    using assms(1) by (auto simp: fetchEntries_def split: prod.splits sum.splits option.splits)
  from fetchLoop_auth [OF fl _ assms(2,3,4)]
  have r: "r = Inl AuthError" and t: "tried = take (Suc i) cands" by simp_all
  have "length tried = min (length cands) (Suc i)"
    by (subst t) simp
  with assms(2) have "length tried = Suc i" by simp
  with assms(1) fl r t show ?thesis
    by (simp add: fetchEntries_def)
qed

theorem auth_failure_aborts_witness:
  "fetchEntries masterForbidden [''staging'', ''master'', ''main'']
     = ([''staging'', ''master''], Inl AuthError)
   \<and> masterForbidden ''master'' = Response 403 Unparsable
   \<and> [''staging'', ''master''] = take (Suc 1) [''staging'', ''master'', ''main'']"
proof -
  have e: "fetchEntries masterForbidden [''staging'', ''master'', ''main'']
     = ([''staging'', ''master''], Inl AuthError)"
    by (simp add: fetchEntries_def masterForbidden_def res_ok_def)
  have i: "1 < length [''staging'', ''master'']" by simp
  have f: "masterForbidden ([''staging'', ''master''] ! 1) = Response 403 Unparsable"
    by (simp add: masterForbidden_def)
  have s: "(403::nat) = 401 \<or> (403::nat) = 403" by simp
  from auth_failure_aborts [OF e i f s] e f show ?thesis by simp
qed

lemma fetchLoop_progress:
  "i < length cs \<Longrightarrow> fetch (cs ! i) = Response st body \<Longrightarrow> res_ok st \<Longrightarrow>
   \<forall>j<i. \<exists>s b. fetch (cs ! j) = Response s b \<and> \<not> res_ok s \<and> s \<noteq> 401 \<and> s \<noteq> 403 \<Longrightarrow>
   fetchLoop fetch cs acc = (acc @ take (Suc i) cs, outcome body (cs ! i))"
proof (induction cs arbitrary: i acc)
  case Nil
  then show ?case by simp
next
  case (Cons c cs)
  show ?case
  proof (cases i)
    case 0
    with Cons.prems(2,3) show ?thesis
      by (simp add: outcome_def split: json.splits)
  next
    case (Suc k)
    with Cons.prems(4) obtain s b where
      c: "fetch c = Response s b" "\<not> res_ok s" "s \<noteq> 401" "s \<noteq> 403"
      by fastforce
    from Suc Cons.prems(1) have k: "k < length cs" by simp
    from Suc Cons.prems(2) have fk: "fetch (cs ! k) = Response st body" by simp
    have earlier: "\<forall>j<k. \<exists>s b. fetch (cs ! j) = Response s b \<and> \<not> res_ok s \<and> s \<noteq> 401 \<and> s \<noteq> 403"
    proof (intro allI impI)
      fix j assume "j < k"
      then have "Suc j < i" using Suc by simp
      with Cons.prems(4) show "\<exists>s b. fetch (cs ! j) = Response s b \<and> \<not> res_ok s \<and> s \<noteq> 401 \<and> s \<noteq> 403"
        by fastforce
    qed
    from Cons.IH [OF k fk Cons.prems(3) earlier, of "acc @ [c]"] c Suc
    show ?thesis by simp
  qed
qed

lemma fetchLoop_exhausted:
  "\<forall>j<length cs. \<exists>s b. fetch (cs ! j) = Response s b \<and> \<not> res_ok s \<and> s \<noteq> 401 \<and> s \<noteq> 403 \<Longrightarrow>
   fetchLoop fetch cs acc = (acc @ cs, Inr None)"
proof (induction cs arbitrary: acc)
  case Nil
  then show ?case by simp
next
  case (Cons c cs)
  from Cons.prems obtain s b where
    c: "fetch c = Response s b" "\<not> res_ok s" "s \<noteq> 401" "s \<noteq> 403"
    by fastforce
  have "\<forall>j<length cs. \<exists>s b. fetch (cs ! j) = Response s b \<and> \<not> res_ok s \<and> s \<noteq> 401 \<and> s \<noteq> 403"
  proof (intro allI impI)
    fix j assume "j < length cs"
    then have "Suc j < length (c # cs)" by simp
    with Cons.prems show "\<exists>s b. fetch (cs ! j) = Response s b \<and> \<not> res_ok s \<and> s \<noteq> 401 \<and> s \<noteq> 403"
      by fastforce
  qed
  from Cons.IH [OF this, of "acc @ [c]"] c show ?case by simp
qed

lemma fetchLoop_result:
  "fetchLoop fetch cs acc = (tried, Inr (Some (d, env))) \<Longrightarrow>
   \<exists>i<length cs. tried = acc @ take (Suc i) cs \<and> cs ! i = env
     \<and> (\<exists>st. fetch env = Response st (Payload d) \<and> res_ok st)
     \<and> (\<forall>j<i. \<exists>s b. fetch (cs ! j) = Response s b \<and> \<not> res_ok s \<and> s \<noteq> 401 \<and> s \<noteq> 403)"
proof (induction cs arbitrary: acc)
  case Nil
  then show ?case by simp
next
  case (Cons c cs)
  show ?case
  proof (cases "fetch c")
    case Rejected
    with Cons.prems show ?thesis by simp
  next
    case (Response s b)
    show ?thesis
    proof (cases "res_ok s")
      case True
      with Response Cons.prems have "b = Payload d" "env = c" "tried = acc @ [c]"
        by (auto split: json.splits)
      with Response True have "0 < length (c # cs) \<and> tried = acc @ take (Suc 0) (c # cs)
          \<and> (c # cs) ! 0 = env
          \<and> (\<exists>st. fetch env = Response st (Payload d) \<and> res_ok st)
          \<and> (\<forall>j<0. \<exists>s b. fetch ((c # cs) ! j) = Response s b \<and> \<not> res_ok s \<and> s \<noteq> 401 \<and> s \<noteq> 403)"
        by simp
      then show ?thesis by blast
    next
      case False
      show ?thesis
      proof (cases "s = 401 \<or> s = 403")
        case True
        with False Response Cons.prems show ?thesis by auto
      next
        case noauth: False
        with False Response Cons.prems
        have "fetchLoop fetch cs (acc @ [c]) = (tried, Inr (Some (d, env)))" by simp
        from Cons.IH [OF this] obtain i where i: "i < length cs"
          "tried = (acc @ [c]) @ take (Suc i) cs" "cs ! i = env"
          "\<exists>st. fetch env = Response st (Payload d) \<and> res_ok st"
          "\<forall>j<i. \<exists>s b. fetch (cs ! j) = Response s b \<and> \<not> res_ok s \<and> s \<noteq> 401 \<and> s \<noteq> 403"
          by blast
        have "\<forall>j<Suc i. \<exists>s b. fetch ((c # cs) ! j) = Response s b \<and> \<not> res_ok s \<and> s \<noteq> 401 \<and> s \<noteq> 403"
        proof (intro allI impI)
          fix j assume j: "j < Suc i"
          show "\<exists>s b. fetch ((c # cs) ! j) = Response s b \<and> \<not> res_ok s \<and> s \<noteq> 401 \<and> s \<noteq> 403"
          proof (cases j)
            case 0
            with Response False noauth show ?thesis by simp
          next
            case (Suc j')
            with j i(5) show ?thesis by simp
          qed
        qed
        with i(1,2,3,4) have "Suc i < length (c # cs) \<and> tried = acc @ take (Suc (Suc i)) (c # cs)
          \<and> (c # cs) ! Suc i = env
          \<and> (\<exists>st. fetch env = Response st (Payload d) \<and> res_ok st)
          \<and> (\<forall>j<Suc i. \<exists>s b. fetch ((c # cs) ! j) = Response s b \<and> \<not> res_ok s \<and> s \<noteq> 401 \<and> s \<noteq> 403)"
          by simp
        then show ?thesis by blast
      qed
    qed
  qed
qed

text \<open>
  Claim C6. For every ordered list of environment candidates, the result of the fetch is
  taken from the first candidate whose request succeeds (\<open>res.ok\<close>, which HTTP 200 satisfies),
  and no request is issued to a candidate after it.

  \<^item> When candidate \<open>i\<close> answers with a success status and every candidate before it answers
    with another status than 401 and 403, the requests issued are exactly the candidates up
    to and including \<open>i\<close>, and the result is the payload of candidate \<open>i\<close> with its
    environment name (a body that does not parse, or parses to a falsy value, ends the build
    with an error instead).
  \<^item> Conversely, a result is always the payload of a candidate whose request succeeded, that
    request is the last one issued, and every candidate before it was requested and answered
    with a failure status other than 401 and 403.
  \<^item> Whatever the outcome, a request that succeeds is the last one issued and none before it
    succeeded.
  \<^item> When every candidate answers with a failure status other than 401 and 403, all are
    requested and the build ends with the error that names them.
\<close>

theorem first_success_wins:
  "(\<forall>i st body.
      i < length cands \<and> fetch (cands ! i) = Response st body \<and> res_ok st
      \<and> (\<forall>j<i. \<exists>s b. fetch (cands ! j) = Response s b \<and> \<not> res_ok s \<and> s \<noteq> 401 \<and> s \<noteq> 403)
      \<longrightarrow> fetchEntries fetch cands
            = (take (Suc i) cands,
               case body of
                 Payload d \<Rightarrow> Inr (d, cands ! i)
               | Falsy \<Rightarrow> Inl (CouldNotFetch cands)
               | Unparsable \<Rightarrow> Inl JsonError))
   \<and> (\<forall>tried d env.
        fetchEntries fetch cands = (tried, Inr (d, env)) \<longrightarrow>
        (\<exists>i<length cands. tried = take (Suc i) cands \<and> cands ! i = env
           \<and> (\<exists>st. fetch env = Response st (Payload d) \<and> res_ok st)
           \<and> (\<forall>j<i. \<exists>s b. fetch (cands ! j) = Response s b \<and> \<not> res_ok s \<and> s \<noteq> 401 \<and> s \<noteq> 403)))
   \<and> (\<forall>tried res i st body.
        fetchEntries fetch cands = (tried, res) \<and> i < length tried
        \<and> fetch (tried ! i) = Response st body \<and> res_ok st \<longrightarrow>
        tried = take (Suc i) cands \<and> length tried = Suc i
        \<and> (\<forall>j < i. \<forall>s b. fetch (tried ! j) = Response s b \<longrightarrow> \<not> res_ok s)
        \<and> res = (case body of
                   Payload d \<Rightarrow> Inr (d, tried ! i)
                 | Falsy \<Rightarrow> Inl (CouldNotFetch cands)
                 | Unparsable \<Rightarrow> Inl JsonError))
   \<and> ((\<forall>j<length cands. \<exists>s b. fetch (cands ! j) = Response s b \<and> \<not> res_ok s \<and> s \<noteq> 401 \<and> s \<noteq> 403)
        \<longrightarrow> fetchEntries fetch cands = (cands, Inl (CouldNotFetch cands)))
   \<and> res_ok 200"
proof (intro conjI allI impI)
  fix i st body
  assume a: "i < length cands \<and> fetch (cands ! i) = Response st body \<and> res_ok st
      \<and> (\<forall>j<i. \<exists>s b. fetch (cands ! j) = Response s b \<and> \<not> res_ok s \<and> s \<noteq> 401 \<and> s \<noteq> 403)"
  then have a1: "i < length cands" and a2: "fetch (cands ! i) = Response st body"
    and a3: "res_ok st"
    and a4: "\<forall>j<i. \<exists>s b. fetch (cands ! j) = Response s b \<and> \<not> res_ok s \<and> s \<noteq> 401 \<and> s \<noteq> 403"
    by blast+
  have "fetchLoop fetch cands [] = ([] @ take (Suc i) cands, outcome body (cands ! i))"
    by (rule fetchLoop_progress [OF a1 a2 a3 a4])
  then show "fetchEntries fetch cands
            = (take (Suc i) cands,
               case body of
                 Payload d \<Rightarrow> Inr (d, cands ! i)
               | Falsy \<Rightarrow> Inl (CouldNotFetch cands)
               | Unparsable \<Rightarrow> Inl JsonError)"
    by (simp add: fetchEntries_def outcome_def split: json.splits)
next
  fix tried d env
  assume "fetchEntries fetch cands = (tried, Inr (d, env))"
  then have "fetchLoop fetch cands [] = (tried, Inr (Some (d, env)))"
    by (auto simp: fetchEntries_def split: prod.splits sum.splits option.splits)
  from fetchLoop_result [OF this]
  show "\<exists>i<length cands. tried = take (Suc i) cands \<and> cands ! i = env
           \<and> (\<exists>st. fetch env = Response st (Payload d) \<and> res_ok st)
           \<and> (\<forall>j<i. \<exists>s b. fetch (cands ! j) = Response s b \<and> \<not> res_ok s \<and> s \<noteq> 401 \<and> s \<noteq> 403)"
    by simp
next
  fix tried res i st body
  assume a: "fetchEntries fetch cands = (tried, res) \<and> i < length tried
        \<and> fetch (tried ! i) = Response st body \<and> res_ok st"
  then have fe: "fetchEntries fetch cands = (tried, res)" and i: "i < length tried"
    and f: "fetch (tried ! i) = Response st body" and ok: "res_ok st" by simp_all
  obtain r where fl: "fetchLoop fetch cands [] = (tried, r)"
    using fe by (auto simp: fetchEntries_def split: prod.splits sum.splits option.splits)
  from fetchLoop_ok [OF fl _ i f ok]
  have r: "r = outcome body (tried ! i)" and t: "tried = take (Suc i) cands" by simp_all
  have "length tried = min (length cands) (Suc i)"
    by (subst t) simp
  with i have len: "length tried = Suc i" by simp
  have first: "\<forall>j < i. \<forall>s b. fetch (tried ! j) = Response s b \<longrightarrow> \<not> res_ok s"
  proof (intro allI impI notI)
    fix j s b
    assume j: "j < i" and fj: "fetch (tried ! j) = Response s b" and okj: "res_ok s"
    from j i have "j < length tried" by simp
    from fetchLoop_ok [OF fl _ this fj okj] have "tried = take (Suc j) cands" by simp
    then have "length tried \<le> Suc j" by (metis length_take min.cobounded2)
    with j len show False by simp
  qed
  have res: "res = (case body of
                   Payload d \<Rightarrow> Inr (d, tried ! i)
                 | Falsy \<Rightarrow> Inl (CouldNotFetch cands)
                 | Unparsable \<Rightarrow> Inl JsonError)"
    using fe fl r by (auto simp: fetchEntries_def outcome_def split: json.splits)
  show "tried = take (Suc i) cands" by (rule t)
  show "length tried = Suc i" by (rule len)
  show "res = (case body of
                   Payload d \<Rightarrow> Inr (d, tried ! i)
                 | Falsy \<Rightarrow> Inl (CouldNotFetch cands)
                 | Unparsable \<Rightarrow> Inl JsonError)" by (rule res)
  fix j s b
  assume "j < i" "fetch (tried ! j) = Response s b"
  with first show "\<not> res_ok s" by blast
next
  assume "\<forall>j<length cands. \<exists>s b. fetch (cands ! j) = Response s b \<and> \<not> res_ok s \<and> s \<noteq> 401 \<and> s \<noteq> 403"
  from fetchLoop_exhausted [OF this, of "[]"]
  show "fetchEntries fetch cands = (cands, Inl (CouldNotFetch cands))"
    by (simp add: fetchEntries_def)
next
  show "res_ok 200" by (simp add: res_ok_def)
qed

theorem first_success_wins_witness:
  "envCandidates (Some ''staging'') = [''staging'', ''master'', ''main'']
   \<and> stagingMissing ''staging'' = Response 404 Unparsable
   \<and> stagingMissing ''master'' = Response 200 (Payload 1)
   \<and> fetchEntries stagingMissing (envCandidates (Some ''staging''))
     = ([''staging'', ''master''], Inr (1, ''master''))
   \<and> stagingBroken ''staging'' = Response 500 Unparsable
   \<and> stagingBroken ''master'' = Response 200 (Payload 1)
   \<and> fetchEntries stagingBroken (envCandidates (Some ''staging''))
     = ([''staging'', ''master''], Inr (1, ''master''))"
proof -
  have c: "envCandidates (Some ''staging'') = [''staging'', ''master'', ''main'']"
    by (simp add: envCandidates_def ENV_FROM_VAR_def)
  have g: "stagingMissing ''staging'' = Response 404 Unparsable"
    by (simp add: stagingMissing_def)
  have f: "stagingMissing ''master'' = Response 200 (Payload 1)"
    by (simp add: stagingMissing_def)
  have g': "stagingBroken ''staging'' = Response 500 Unparsable"
    by (simp add: stagingBroken_def)
  have f': "stagingBroken ''master'' = Response 200 (Payload 1)"
    by (simp add: stagingBroken_def)
  have ok: "res_ok 200" by (simp add: res_ok_def)
  have h: "(1::nat) < length [''staging'', ''master'', ''main'']
      \<and> stagingMissing ([''staging'', ''master'', ''main''] ! 1) = Response 200 (Payload 1) \<and> res_ok 200
      \<and> (\<forall>j<1. \<exists>s b. stagingMissing ([''staging'', ''master'', ''main''] ! j) = Response s b
            \<and> \<not> res_ok s \<and> s \<noteq> 401 \<and> s \<noteq> 403)"
    using f g ok by (simp add: res_ok_def)
  have h': "(1::nat) < length [''staging'', ''master'', ''main'']
      \<and> stagingBroken ([''staging'', ''master'', ''main''] ! 1) = Response 200 (Payload 1) \<and> res_ok 200
      \<and> (\<forall>j<1. \<exists>s b. stagingBroken ([''staging'', ''master'', ''main''] ! j) = Response s b
            \<and> \<not> res_ok s \<and> s \<noteq> 401 \<and> s \<noteq> 403)"
    using f' g' ok by (simp add: res_ok_def)
  note e = first_success_wins [of "[''staging'', ''master'', ''main'']" stagingMissing,
      THEN conjunct1, rule_format, OF h]
  note e' = first_success_wins [of "[''staging'', ''master'', ''main'']" stagingBroken,
      THEN conjunct1, rule_format, OF h']
  from c g f g' f' e e' show ?thesis by simp
qed

section \<open>Rendering text nodes and embedded media\<close>

lemma wrapMark_tags: "wrapMark out m = openTag m @ out @ closeTag m"
  by (simp add: wrapMark_def openTag_def closeTag_def markTag_def)

lemma applyMarks_snoc: "applyMarks out (ms @ [m]) = wrapMark (applyMarks out ms) m"
  by (induction ms arbitrary: out) simp_all

lemma applyMarks_closed:
  "applyMarks out ms = concat (map openTag (rev ms)) @ out @ concat (map closeTag ms)"
  by (induction ms arbitrary: out) (simp_all add: wrapMark_tags)

text \<open>
  Claim C7. For every text node, the rendered HTML is the node's value with the five
  characters \<open>&\<close>, \<open><\<close>, \<open>>\<close>, the double quote and the apostrophe escaped, wrapped by one inline tag
  per mark (\<open>strong\<close> for bold, \<open>em\<close> for italic, \<open>u\<close> for underline, \<open>code\<close> for code), in
  the order of the node's mark list: the first mark is innermost, and each further mark wraps
  the previous result.
\<close>

theorem text_node_render:
  "renderNode assets (Node ''text'' v ms u tg cs)
     = concat (map openTag (rev ms)) @ esc v @ concat (map closeTag ms)
   \<and> renderNode assets (Node ''text'' v [] u tg cs) = concat (map escChar v)
   \<and> renderNode assets (Node ''text'' v (ms @ [m]) u tg cs)
     = openTag m @ renderNode assets (Node ''text'' v ms u tg cs) @ closeTag m
   \<and> map openTag [''bold'', ''italic'', ''underline'', ''code'']
     = [''<strong>'', ''<em>'', ''<u>'', ''<code>'']
   \<and> map closeTag [''bold'', ''italic'', ''underline'', ''code'']
     = [''</strong>'', ''</em>'', ''</u>'', ''</code>'']
   \<and> map escChar [CHR ''&'', CHR ''<'', CHR ''>'', dq, apos, CHR ''a'']
     = [''&amp;'', ''&lt;'', ''&gt;'', ''&quot;'', ''&#39;'', ''a'']"
proof -
  have a: "renderNode assets (Node ''text'' v ms u tg cs) = applyMarks (esc v) ms" for ms
    by simp
  have "map openTag [''bold'', ''italic'', ''underline'', ''code'']
     = [''<strong>'', ''<em>'', ''<u>'', ''<code>'']"
    by (simp add: openTag_def markTag_def)
  moreover have "map closeTag [''bold'', ''italic'', ''underline'', ''code'']
     = [''</strong>'', ''</em>'', ''</u>'', ''</code>'']"
    by (simp add: closeTag_def markTag_def)
  moreover have "map escChar [CHR ''&'', CHR ''<'', CHR ''>'', dq, apos, CHR ''a'']
     = [''&amp;'', ''&lt;'', ''&gt;'', ''&quot;'', ''&#39;'', ''a'']"
    by (simp add: escChar_def dq_def apos_def)
  ultimately show ?thesis
    unfolding a by (simp add: applyMarks_closed applyMarks_snoc wrapMark_tags esc_def)
qed

theorem text_node_render_witness:
  "renderNode Map.empty (Node ''text'' ''a<b'' [''bold'', ''code''] None None [])
     = ''<code><strong>a&lt;b</strong></code>''"
proof -
  have "concat (map openTag (rev [''bold'', ''code''])) @ esc ''a<b'' @ concat (map closeTag [''bold'', ''code''])
    = ''<code><strong>a&lt;b</strong></code>''"
    by code_simp
  with conjunct1 [OF text_node_render, of Map.empty "''a<b''" "[''bold'', ''code'']" None None "[]"]
  show ?thesis by (simp only:)
qed

lemma renderNodes_append:
  "renderNodes assets (xs @ ys) = renderNodes assets xs @ renderNodes assets ys"
  by (induction xs) simp_all

lemma embedded_not_other:
  "t = ''embedded-asset-block'' \<or> t = ''embedded-asset-inline'' \<Longrightarrow>
   t \<noteq> ''text'' \<and> t \<noteq> ''paragraph'' \<and> \<not> prefix ''heading-'' t \<and> t \<noteq> ''unordered-list''
   \<and> t \<noteq> ''ordered-list'' \<and> t \<noteq> ''list-item'' \<and> t \<noteq> ''blockquote'' \<and> t \<noteq> ''hr''
   \<and> t \<noteq> ''hyperlink''"
  by auto

lemma renderNode_embedded:
  "t = ''embedded-asset-block'' \<or> t = ''embedded-asset-inline'' \<Longrightarrow>
   renderNode assets (Node t v ms u tg cs) =
     (case lookupAsset assets tg of None \<Rightarrow> [] | Some a \<Rightarrow> if url a = [] then [] else figure a)"
  using embedded_not_other [of t] by (simp del: One_nat_def)

text \<open>
  Claim C8. For every embedded-media node whose referenced identifier is not a key of the
  asset index, the node renders as the empty string, and the nodes around it are rendered as
  if it were not there.
\<close>

theorem dangling_media_empty:
  assumes "t = ''embedded-asset-block'' \<or> t = ''embedded-asset-inline''"
    and "tg = Some i" and "i \<notin> dom assets"
  shows "renderNode assets (Node t v ms u tg cs) = []
    \<and> renderNodes assets (xs @ Node t v ms u tg cs # ys) = renderNodes assets xs @ renderNodes assets ys"
proof -
  from assms have "lookupAsset assets tg = None"
    by (auto simp: lookupAsset_def)
  then have e: "renderNode assets (Node t v ms u tg cs) = []"
    by (simp only: renderNode_embedded [OF assms(1)] option.case)
  show ?thesis
    unfolding renderNodes_append renderNodes.simps e by simp
qed

theorem dangling_media_empty_witness:
  "''missing'' \<notin> dom (assetMap [logoAsset])
   \<and> renderNode (assetMap [logoAsset])
        (Node ''embedded-asset-block'' [] [] None (Some ''missing'') []) = []
   \<and> renderNodes (assetMap [logoAsset])
        ([Node ''text'' ''a'' [] None None []]
          @ Node ''embedded-asset-block'' [] [] None (Some ''missing'') []
          # [Node ''text'' ''b'' [] None None []]) = ''ab''"
proof -
  have d: "''missing'' \<notin> dom (assetMap [logoAsset])"
    by (simp add: assetMap_def logoAsset_def)
  have t: "''embedded-asset-block'' = ''embedded-asset-block''
      \<or> ''embedded-asset-block'' = ''embedded-asset-inline''" by simp
  have r: "renderNodes (assetMap [logoAsset]) [Node ''text'' ''a'' [] None None []]
      @ renderNodes (assetMap [logoAsset]) [Node ''text'' ''b'' [] None None []] = ''ab''"
    by (simp add: esc_def escChar_def dq_def apos_def)
  from dangling_media_empty [OF t refl d, of "[]" "[]" None "[]"
      "[Node ''text'' ''a'' [] None None []]" "[Node ''text'' ''b'' [] None None []]"] d r
  show ?thesis by (simp only:) simp
qed

section \<open>Asset index\<close>














section \<open>Lead and rest\<close>

lemma leadFrom_0: "leadFrom tk taken (n # ns) 0 = (isParagraph n \<and> taken < tk)"
  by (simp add: leadFrom_def)

lemma leadFrom_Suc:
  "leadFrom tk taken (n # ns) (Suc j) =
     leadFrom tk (if taken < tk \<and> isParagraph n then Suc taken else taken) ns j"
  by (auto simp: leadFrom_def)

lemma splitLoop_lead:
  "fst (splitLoop tk cs (L, R, t)) = L @ nths cs {i. leadFrom tk t cs i}"
proof (induction cs arbitrary: L R t)
  case Nil
  then show ?case by simp
next
  case (Cons n ns)
  show ?case
    by (simp add: Cons.IH nths_Cons leadFrom_0 leadFrom_Suc isParagraph_def)
qed

lemma splitLoop_rest:
  "fst (snd (splitLoop tk cs (L, R, t))) = R @ nths cs {i. \<not> leadFrom tk t cs i}"
proof (induction cs arbitrary: L R t)
  case Nil
  then show ?case by simp
next
  case (Cons n ns)
  show ?case
    by (simp add: Cons.IH nths_Cons leadFrom_0 leadFrom_Suc isParagraph_def)
qed

lemma splitLoop_take:
  "fst (splitLoop tk cs (L, R, t)) = L @ take (tk - t) (filter isParagraph cs)"
proof (induction cs arbitrary: L R t)
  case Nil
  then show ?case by simp
next
  case (Cons n ns)
  show ?case
  proof (cases "t < tk \<and> nodeType n = ''paragraph''")
    case True
    then have "t < tk" by simp
    then have "tk - t = Suc (tk - (t + 1))" by arith
    with True show ?thesis
      by (simp add: Cons.IH isParagraph_def)
  next
    case False
    then show ?thesis
      by (auto simp: Cons.IH isParagraph_def)
  qed
qed

lemma interleave_nths:
  "interleave (map P [0..<length xs]) (nths xs {i. P i}) (nths xs {i. \<not> P i}) = xs"
proof (induction xs arbitrary: P)
  case Nil
  then show ?case by simp
next
  case (Cons x xs)
  have m: "map P [0..<length (x # xs)] = P 0 # map (\<lambda>j. P (Suc j)) [0..<length xs]"
    by (simp add: upt_conv_Cons map_Suc_upt [symmetric] del: upt_Suc)
  show ?case
    unfolding m using Cons.IH [of "\<lambda>j. P (Suc j)"]
    by (cases "P 0") (simp_all add: nths_Cons)
qed

lemma leadFrom_isLead: "leadFrom tk 0 cs = isLead tk cs"
  by (rule ext) (simp add: leadFrom_def isLead_def)

text \<open>
  Claim C4. For every document and every \<open>n\<close>, \<open>splitLead\<close> partitions the top-level node
  sequence: the lead holds, in order, the first \<open>min n p\<close> paragraph nodes (\<open>p\<close> the number of
  top-level paragraphs), the rest holds every other top-level node in its original order, and
  putting the lead's nodes back at their original positions among the rest's nodes gives the
  original sequence.
\<close>

theorem splitLead_partition:
  "nodeType (lead (splitLead (Some doc) n)) = ''document''
   \<and> nodeType (rest (splitLead (Some doc) n)) = ''document''
   \<and> content (lead (splitLead (Some doc) n)) = take n (filter isParagraph (content doc))
   \<and> length (content (lead (splitLead (Some doc) n))) = min n (length (filter isParagraph (content doc)))
   \<and> content (lead (splitLead (Some doc) n)) = nths (content doc) {i. isLead n (content doc) i}
   \<and> content (rest (splitLead (Some doc) n)) = nths (content doc) {i. \<not> isLead n (content doc) i}
   \<and> interleave (map (isLead n (content doc)) [0..<length (content doc)])
        (content (lead (splitLead (Some doc) n))) (content (rest (splitLead (Some doc) n)))
      = content doc"
proof -
  obtain L R t where sl: "splitLoop n (content doc) ([], [], 0) = (L, R, t)"
    by (cases "splitLoop n (content doc) ([], [], 0)") auto
  have l: "content (lead (splitLead (Some doc) n)) = L"
    and r: "content (rest (splitLead (Some doc) n)) = R"
    and t: "nodeType (lead (splitLead (Some doc) n)) = ''document''"
      "nodeType (rest (splitLead (Some doc) n)) = ''document''"
    by (simp_all add: splitLead_def sl document_def)
  have L1: "L = take n (filter isParagraph (content doc))"
    using splitLoop_take [of n "content doc" "[]" "[]" 0] by (simp add: sl)
  have L2: "L = nths (content doc) {i. isLead n (content doc) i}"
    using splitLoop_lead [of n "content doc" "[]" "[]" 0] by (simp add: sl leadFrom_isLead)
  have R2: "R = nths (content doc) {i. \<not> isLead n (content doc) i}"
    using splitLoop_rest [of n "content doc" "[]" "[]" 0] by (simp add: sl leadFrom_isLead)
  have I: "interleave (map (isLead n (content doc)) [0..<length (content doc)]) L R = content doc"
    unfolding L2 R2 by (rule interleave_nths)
  have len: "length L = min n (length (filter isParagraph (content doc)))"
    unfolding L1 by (simp add: min.commute)
  show ?thesis
    unfolding l r using t L1 len L2 R2 I by (intro conjI) simp_all
qed

theorem splitLead_partition_witness:
  "content (lead (splitLead (Some splitDoc) 1)) = [Node ''paragraph'' ''1'' [] None None []]
   \<and> content (rest (splitLead (Some splitDoc) 1))
     = [Node ''hr'' [] [] None None [], Node ''paragraph'' ''2'' [] None None []]
   \<and> interleave (map (isLead 1 (content splitDoc)) [0..<length (content splitDoc)])
        [Node ''paragraph'' ''1'' [] None None []]
        [Node ''hr'' [] [] None None [], Node ''paragraph'' ''2'' [] None None []]
     = content splitDoc"
proof -
  have l: "content (lead (splitLead (Some splitDoc) 1)) = [Node ''paragraph'' ''1'' [] None None []]"
    by (simp add: splitLead_def splitDoc_def document_def)
  have r: "content (rest (splitLead (Some splitDoc) 1))
     = [Node ''hr'' [] [] None None [], Node ''paragraph'' ''2'' [] None None []]"
    by (simp add: splitLead_def splitDoc_def document_def)
  from splitLead_partition [of splitDoc 1] show ?thesis
    unfolding l r by blast
qed

section \<open>Plain text snippet: trimming and truncation\<close>

lemma accumulate_full: "mx \<le> int (length buf) \<Longrightarrow> accumulate mx buf vs = buf"
  by (cases vs) simp_all

lemma accumulate_append:
  "accumulate mx buf (a @ b) = accumulate mx (accumulate mx buf a) b"
  by (induction a arbitrary: buf) (simp_all add: accumulate_full)

lemma walk_accumulate:
  "walk mx n buf = accumulate mx buf (texts n)"
  "walkArray mx ns buf = accumulate mx buf (textsOf ns)"
  "forEach mx ns buf = accumulate mx buf (textsOf ns)"
proof (induction mx n buf and mx ns buf and mx ns buf rule: walk_walkArray_forEach.induct)
  case (1 mx t v ms u tg cs buf)
  then show ?case by (simp add: accumulate_full)
next
  case (2 mx ns buf)
  then show ?case by (simp add: accumulate_full)
next
  case (3 mx buf)
  then show ?case by simp
next
  case (4 mx n ns buf)
  then show ?case by (simp add: accumulate_append)
qed

lemma accumulate_shortest:
  "\<exists>k \<le> length vs. accumulate mx buf vs = buf @ concat (take k vs)
    \<and> (k = length vs \<or> mx \<le> int (length (accumulate mx buf vs)))
    \<and> (\<forall>j < k. int (length (buf @ concat (take j vs))) < mx)"
proof (induction vs arbitrary: buf)
  case Nil
  then show ?case by simp
next
  case (Cons v vs)
  show ?case
  proof (cases "mx \<le> int (length buf)")
    case True
    then have "accumulate mx buf (v # vs) = buf @ concat (take 0 (v # vs))
       \<and> mx \<le> int (length (accumulate mx buf (v # vs)))
       \<and> (\<forall>j < (0::nat). int (length (buf @ concat (take j (v # vs)))) < mx)"
      by simp
    then show ?thesis by blast
  next
    case False
    from Cons.IH [of "buf @ v"] obtain k where k: "k \<le> length vs"
      "accumulate mx (buf @ v) vs = (buf @ v) @ concat (take k vs)"
      "k = length vs \<or> mx \<le> int (length (accumulate mx (buf @ v) vs))"
      "\<forall>j < k. int (length ((buf @ v) @ concat (take j vs))) < mx"
      by blast
    have "\<forall>j < Suc k. int (length (buf @ concat (take j (v # vs)))) < mx"
    proof (intro allI impI)
      fix j assume "j < Suc k"
      then show "int (length (buf @ concat (take j (v # vs)))) < mx"
        using False k(4) by (cases j) simp_all
    qed
    with False k(1,2,3) have "Suc k \<le> length (v # vs)
       \<and> accumulate mx buf (v # vs) = buf @ concat (take (Suc k) (v # vs))
       \<and> (Suc k = length (v # vs) \<or> mx \<le> int (length (accumulate mx buf (v # vs))))
       \<and> (\<forall>j < Suc k. int (length (buf @ concat (take j (v # vs)))) < mx)"
      by simp
    then show ?thesis by blast
  qed
qed

lemma accumulate_take:
  "take (nat mx) (accumulate mx [] vs) = take (nat mx) (concat vs)"
proof -
  from accumulate_shortest [of vs mx "[]"] obtain k where k: "k \<le> length vs"
    "accumulate mx [] vs = concat (take k vs)"
    "k = length vs \<or> mx \<le> int (length (accumulate mx [] vs))"
    by auto
  show ?thesis
  proof (cases "k = length vs")
    case True
    with k show ?thesis by simp
  next
    case False
    with k have len: "nat mx \<le> length (concat (take k vs))" by simp
    have "concat vs = concat (take k vs) @ concat (drop k vs)"
      by (metis append_take_drop_id concat_append)
    then have "take (nat mx) (concat vs) = take (nat mx) (concat (take k vs))"
      using len by simp
    with k show ?thesis by simp
  qed
qed

lemma slice0_take: "0 \<le> e \<or> s = [] \<Longrightarrow> slice0 s e = take (nat e) s"
  by (auto simp: slice0_def)

lemma accumulate_neg: "mx \<le> 0 \<Longrightarrow> accumulate mx [] vs = []"
  by (simp add: accumulate_full)

lemma richToPlain_eq:
  "richToPlain (Some doc) mx = esc (take (nat mx) (trim (accumulate mx [] (texts doc))))"
proof -
  have "0 \<le> mx \<or> trim (accumulate mx [] (texts doc)) = []"
    using accumulate_neg [of mx "texts doc"] by (cases "0 \<le> mx") (simp_all add: trim_def)
  then show ?thesis
    by (simp add: richToPlain_def walk_accumulate slice0_take)
qed

text \<open>
  Claim C2, as amended. For every document and every \<open>maxLen\<close>, the plain text snippet is
  the HTML-escaping of the first \<open>maxLen\<close> characters of the accumulated text with its leading
  and trailing whitespace removed. The accumulated text is the depth-first concatenation of
  the text-node values up to the first text node at which its length reaches \<open>maxLen\<close> (all of
  them when it never does); it agrees with the full concatenation on the first \<open>maxLen\<close>
  characters. Truncation comes before escaping. When the accumulated text neither begins nor
  ends with whitespace, the snippet is the HTML-escaping of the first \<open>maxLen\<close> characters of
  the full concatenation.
\<close>

theorem richToPlain_trimmed:
  "richToPlain (Some doc) mx = esc (take (nat mx) (trim (accumulate mx [] (texts doc))))
   \<and> (\<exists>k \<le> length (texts doc).
         accumulate mx [] (texts doc) = concat (take k (texts doc))
         \<and> (k = length (texts doc) \<or> mx \<le> int (length (concat (take k (texts doc)))))
         \<and> (\<forall>j < k. int (length (concat (take j (texts doc)))) < mx))
   \<and> take (nat mx) (accumulate mx [] (texts doc)) = take (nat mx) (concat (texts doc))
   \<and> (trim (accumulate mx [] (texts doc)) = accumulate mx [] (texts doc) \<longrightarrow>
        richToPlain (Some doc) mx = esc (take (nat mx) (concat (texts doc))))"
proof -
  have a: "richToPlain (Some doc) mx = esc (take (nat mx) (trim (accumulate mx [] (texts doc))))"
    by (rule richToPlain_eq)
  have b: "\<exists>k \<le> length (texts doc).
         accumulate mx [] (texts doc) = concat (take k (texts doc))
         \<and> (k = length (texts doc) \<or> mx \<le> int (length (concat (take k (texts doc)))))
         \<and> (\<forall>j < k. int (length (concat (take j (texts doc)))) < mx)"
  proof -
    from accumulate_shortest [of "texts doc" mx "[]"] obtain k where k: "k \<le> length (texts doc)"
      "accumulate mx [] (texts doc) = concat (take k (texts doc))"
      "k = length (texts doc) \<or> mx \<le> int (length (accumulate mx [] (texts doc)))"
      "\<forall>j < k. int (length (concat (take j (texts doc)))) < mx"
      by auto
    from k(2,3) have "k = length (texts doc) \<or> mx \<le> int (length (concat (take k (texts doc))))"
      by simp
    with k(1,2,4) show ?thesis by blast
  qed
  have c: "take (nat mx) (accumulate mx [] (texts doc)) = take (nat mx) (concat (texts doc))"
    by (rule accumulate_take)
  have d: "trim (accumulate mx [] (texts doc)) = accumulate mx [] (texts doc) \<longrightarrow>
        richToPlain (Some doc) mx = esc (take (nat mx) (concat (texts doc)))"
    using a c by simp
  from a b c d show ?thesis by blast
qed

theorem richToPlain_trimmed_witness:
  "trim (accumulate 8 [] (texts helloDoc)) = accumulate 8 [] (texts helloDoc)
   \<and> concat (texts helloDoc) = ''Hello <world>''
   \<and> richToPlain (Some helloDoc) 8 = ''Hello &lt;w''"
proof -
  have h: "trim (accumulate 8 [] (texts helloDoc)) = accumulate 8 [] (texts helloDoc)"
    by code_simp
  have t: "concat (texts helloDoc) = ''Hello <world>''"
    by code_simp
  have e: "esc (take (nat 8) ''Hello <world>'') = ''Hello &lt;w''"
    by code_simp
  from richToPlain_trimmed [of helloDoc 8] h
  have "richToPlain (Some helloDoc) 8 = esc (take (nat 8) (concat (texts helloDoc)))"
    by blast
  with h t e show ?thesis by simp
qed

text \<open>
  The claim as first stated, without the trimming, fails on a text that begins with a space:
  the snippet of \<open>" ab"\<close> with \<open>maxLen = 2\<close> is \<open>"ab"\<close>, not \<open>" a"\<close>.
\<close>

theorem richToPlain_trim_counterexample:
  "concat (texts paddedDoc) = '' ab''
   \<and> esc (take (nat 2) (concat (texts paddedDoc))) = '' a''
   \<and> richToPlain (Some paddedDoc) 2 = ''ab''
   \<and> richToPlain (Some paddedDoc) 2 \<noteq> esc (take (nat 2) (concat (texts paddedDoc)))"
proof -
  have a: "concat (texts paddedDoc) = '' ab''" by code_simp
  have b: "esc (take (nat 2) (concat (texts paddedDoc))) = '' a''" by code_simp
  have c: "richToPlain (Some paddedDoc) 2 = ''ab''" by code_simp
  from a b c show ?thesis by simp
qed

section \<open>Splicing the cards\<close>

lemma lazyThenEnd_split: "lazyThenEnd s = Some (g, r) \<Longrightarrow> s = g @ END @ r"
proof (induction s arbitrary: g r rule: lazyThenEnd.induct)
  case (1 s)
  show ?case
  proof (cases "prefix END s")
    case True
    with "1.prems" have "g = []" "r = drop (length END) s"
      by (simp_all add: lazyThenEnd.simps [of s])
    moreover from True obtain z where "s = END @ z" by (auto simp: prefix_def)
    ultimately show ?thesis by simp
  next
    case False
    with "1.prems" obtain c cs where s: "s = c # cs"
      by (cases s) (simp_all add: lazyThenEnd.simps [of "[]"])
    with False "1.prems" obtain g' where g': "lazyThenEnd cs = Some (g', r)" "g = c # g'"
      by (auto simp: lazyThenEnd.simps [of "c # cs"] split: option.splits)
    from "1.IH" [OF False s g'(1)] have "cs = g' @ END @ r" .
    with s g' show ?thesis by simp
  qed
qed

lemma matchHere_split: "matchHere s = Some (g, r) \<Longrightarrow> s = START @ g @ END @ r"
proof -
  assume m: "matchHere s = Some (g, r)"
  then have p: "prefix START s" and l: "lazyThenEnd (drop (length START) s) = Some (g, r)"
    by (simp_all add: matchHere_def split: if_splits)
  from p obtain z where z: "s = START @ z" by (auto simp: prefix_def)
  with l have "z = g @ END @ r" by (simp add: lazyThenEnd_split)
  with z show ?thesis by simp
qed

lemma regexExec_split:
  "regexExec pre s = Some (p, g, r) \<Longrightarrow> \<exists>a. p = pre @ a \<and> s = a @ START @ g @ END @ r"
proof (induction pre s rule: regexExec.induct)
  case (1 pre s)
  show ?case
  proof (cases "matchHere s")
    case (Some m)
    with "1.prems" have "m = (g, r)" "p = pre"
      by (auto simp: regexExec.simps [of pre s])
    with Some matchHere_split [of s g r] have "p = pre @ [] \<and> s = [] @ START @ g @ END @ r"
      by simp
    then show ?thesis by blast
  next
    case None
    with "1.prems" obtain c cs where s: "s = c # cs"
      by (cases s) (simp_all add: regexExec.simps [of pre "[]"])
    with None "1.prems" have "regexExec (pre @ [c]) cs = Some (p, g, r)"
      by (simp add: regexExec.simps [of pre "c # cs"])
    from "1.IH" [OF None s this] obtain a where "p = (pre @ [c]) @ a" "cs = a @ START @ g @ END @ r"
      by blast
    with s have "p = pre @ (c # a) \<and> s = (c # a) @ START @ g @ END @ r" by simp
    then show ?thesis by blast
  qed
qed

text \<open>
  Claim C1, as amended. If the listing template does not contain a start marker followed
  later by an end marker, the card-splicing step raises no error and returns the template
  unchanged.
\<close>

theorem splice_without_markers:
  assumes "\<not> (\<exists>a b c. newsTpl = a @ START @ b @ END @ c)"
  shows "newsPage newsTpl cards = newsTpl"
proof (cases "regexExec [] newsTpl")
  case None
  then show ?thesis by (simp add: newsPage_def)
next
  case (Some m)
  obtain p g r where "m = (p, g, r)" by (cases m) auto
  with Some regexExec_split [of "[]" newsTpl p g r] assms show ?thesis by blast
qed

text \<open>
  The claim as first stated, that the step fails on such a template and never returns the
  page unmodified, does not hold: a template with no marker comes back as it was.
\<close>

theorem splice_silent_counterexample:
  "\<not> (\<exists>a b c. ''<main></main>'' = a @ START @ b @ END @ c)
   \<and> newsPage ''<main></main>'' ''<article>x</article>'' = ''<main></main>''"
proof
  show "\<not> (\<exists>a b c. ''<main></main>'' = a @ START @ b @ END @ c)"
  proof
    assume "\<exists>a b c. ''<main></main>'' = a @ START @ b @ END @ c"
    then obtain a b c where "''<main></main>'' = a @ START @ b @ END @ c" by blast
    then have "length ''<main></main>'' = length (a @ START @ b @ END @ c)" by (rule arg_cong)
    then show False by (simp add: START_def END_def)
  qed
  show "newsPage ''<main></main>'' ''<article>x</article>'' = ''<main></main>''"
    by code_simp
qed

lemma no_end_no_pair:
  "CHR ''D'' \<notin> set t \<Longrightarrow> \<not> (\<exists>a b c. t = a @ START @ b @ END @ c)"
  by (auto simp: END_def)

theorem splice_without_markers_witness:
  "\<not> (\<exists>a b c. START @ ''<p>old</p>'' = a @ START @ b @ END @ c)
   \<and> newsPage (START @ ''<p>old</p>'') ''<article>x</article>'' = START @ ''<p>old</p>''"
proof -
  have "CHR ''D'' \<notin> set (START @ ''<p>old</p>'')"
    by (simp add: START_def)
  then have h: "\<not> (\<exists>a b c. START @ ''<p>old</p>'' = a @ START @ b @ END @ c)"
    by (rule no_end_no_pair)
  from h splice_without_markers [OF h, of "''<article>x</article>''"] show ?thesis by blast
qed

text \<open>
  With both markers in place the region between them is replaced, and a replacement pattern
  inside the cards is expanded.
\<close>

lemma splice_example:
  "newsPage (''<ul>'' @ START @ ''old'' @ END @ ''</ul>'') ''<li>$1</li>''
     = ''<ul>'' @ START @ [nl] @ ''<li>'' @ START @ ''</li>'' @ [nl] @ END @ ''</ul>''"
  by code_simp

end
